theory Spec2Isabelle
  imports Main
begin

section \<open>Toggle: the data model of \<^verbatim>\<open>src/components/forms/Toggle.tsx\<close>\<close>

text \<open>
  The toggle family is a set of React function components. A component is embedded as
  the functions of its body: what the first render computes, what a handler does to
  the hook state, what an effect does after a commit, and what the render hands to
  the children. Hook state is a record that is passed through and returned. A callback
  that leaves the component (\<^verbatim>\<open>onChange\<close>) is recorded by the list of arguments it
  was called with, oldest first. JavaScript strings are \<^typ>\<open>string\<close>, arrays are lists,
  an optional prop is an \<^typ>\<open>'a option\<close> (\<^term>\<open>None\<close> is \<^verbatim>\<open>undefined\<close>).
\<close>

datatype toggle_type = Radio | Checkbox

text \<open>The argument of \<^verbatim>\<open>setFieldValue\<close> and of an item's \<^verbatim>\<open>onChange\<close>:
  \<^verbatim>\<open>{name: string; value: boolean}\<close>.\<close>

record field_value =
  fv_name :: string
  fv_value :: bool

subsection \<open>The selection update of \<^verbatim>\<open>Group\<close> (lines 85 to 99)\<close>

text \<open>
  \<^verbatim>\<open>setFieldValue\<close> queues an update of the \<^verbatim>\<open>values\<close> state. In checkbox mode the
  update is the function \<^verbatim>\<open>s => { state = s.filter(v => v !== name); return value ?
  state.concat(name) : state }\<close>, in radio mode it is the constant \<^verbatim>\<open>[name]\<close>. React
  applies the queued updates in order to the state, so the call is embedded as the
  function it applies to the selection.
\<close>

definition setFieldValue :: "toggle_type \<Rightarrow> field_value \<Rightarrow> string list \<Rightarrow> string list" where
  "setFieldValue tp fv s =
     (if tp = Checkbox then
        (let state = filter (\<lambda>v. v \<noteq> fv_name fv) s
         in if fv_value fv then state @ [fv_name fv] else state)
      else [fv_name fv])"

subsection \<open>\<^verbatim>\<open>Item\<close> (lines 172 to 261)\<close>

text \<open>
  An item reads the nearest \<^verbatim>\<open>GroupContext\<close>. The callbacks it calls are functions of
  a state \<open>'w\<close> that they change: inside a group \<open>'w\<close> is the hook state of the group,
  outside it is whatever the caller's \<^verbatim>\<open>onChange\<close> works on.
\<close>

record 'w group_context =
  ctx_values :: "string list"
  ctx_disabled :: bool
  ctx_type :: toggle_type
  ctx_setFieldValue :: "field_value \<Rightarrow> 'w \<Rightarrow> 'w"

text \<open>The default of \<^verbatim>\<open>React.createContext\<close> (lines 34 to 39), which an item outside any
  group reads: \<^verbatim>\<open>setFieldValue: () => {}\<close> does nothing.\<close>

definition GroupContext_default :: "'w group_context" where
  "GroupContext_default =
     \<lparr>ctx_values = [], ctx_disabled = False, ctx_type = Checkbox,
      ctx_setFieldValue = (\<lambda>_ w. w)\<rparr>"

text \<open>The props of an item that the logic reads (\<^verbatim>\<open>label\<close>, \<^verbatim>\<open>style\<close> and
  \<^verbatim>\<open>children\<close> are presentation only).\<close>

record 'w item_props =
  ip_type :: "toggle_type option"
  ip_name :: string
  ip_value :: "bool option"
  ip_disabled :: "bool option"
  ip_onChange :: "(field_value \<Rightarrow> 'w \<Rightarrow> 'w) option"
  ip_hasError :: "bool option"

text \<open>A destructuring default, \<^verbatim>\<open>value = false\<close>, and \<^verbatim>\<open>x ?? false\<close>.\<close>

definition default_to :: "'a \<Rightarrow> 'a option \<Rightarrow> 'a" where
  "default_to d x = (case x of None \<Rightarrow> d | Some v \<Rightarrow> v)"

record item_state =
  is_name :: string
  is_selected :: bool
  is_disabled :: bool
  is_hasError :: bool
  is_hovered :: bool
  is_pressed :: bool
  is_focused :: bool

text \<open>Lines 203 to 205 and 213 to 224: the state an item derives and hands to its
  visual children; the three interaction flags come from \<^verbatim>\<open>useInteractionState\<close>.\<close>

definition Item_role :: "'w group_context \<Rightarrow> 'w item_props \<Rightarrow> toggle_type" where
  "Item_role ctx props =
     (if ctx_type ctx = Radio then Radio else default_to Checkbox (ip_type props))"

definition Item_state ::
  "'w group_context \<Rightarrow> 'w item_props \<Rightarrow> bool \<Rightarrow> bool \<Rightarrow> bool \<Rightarrow> item_state" where
  "Item_state ctx props hovered pressed focused =
     (let selected = (ip_name props \<in> set (ctx_values ctx)
                      \<or> default_to False (ip_value props));
          disabled = (ctx_disabled ctx \<or> default_to False (ip_disabled props))
      in \<lparr>is_name = ip_name props, is_selected = selected, is_disabled = disabled,
          is_hasError = default_to False (ip_hasError props),
          is_hovered = hovered, is_pressed = pressed, is_focused = focused\<rparr>)"

text \<open>
  Lines 207 to 211:
  \<^verbatim>\<open>const next = !value; setFieldValue({name, value: next}); onChange?.({name, value: next})\<close>.
  \<^verbatim>\<open>f?.(x)\<close> calls \<open>f\<close> when it is defined and does nothing otherwise.
\<close>

definition optional_call :: "('a \<Rightarrow> 'w \<Rightarrow> 'w) option \<Rightarrow> 'a \<Rightarrow> 'w \<Rightarrow> 'w" where
  "optional_call f x w = (case f of None \<Rightarrow> w | Some g \<Rightarrow> g x w)"

definition onPress :: "'w group_context \<Rightarrow> 'w item_props \<Rightarrow> 'w \<Rightarrow> 'w" where
  "onPress ctx props w =
     (let next = \<not> default_to False (ip_value props);
          w = ctx_setFieldValue ctx \<lparr>fv_name = ip_name props, fv_value = next\<rparr> w;
          w = optional_call (ip_onChange props) \<lparr>fv_name = ip_name props, fv_value = next\<rparr> w
      in w)"

text \<open>A caller that records the calls it receives, to count them.\<close>

datatype item_call = Called_setFieldValue field_value | Called_onChange field_value

definition recording_context :: "item_call list group_context" where
  "recording_context =
     GroupContext_default\<lparr>ctx_setFieldValue := (\<lambda>fv w. w @ [Called_setFieldValue fv])\<rparr>"

definition recording_onChange :: "field_value \<Rightarrow> item_call list \<Rightarrow> item_call list" where
  "recording_onChange fv w = w @ [Called_onChange fv]"

subsection \<open>\<^verbatim>\<open>Group\<close> (lines 65 to 170)\<close>

datatype error = Error string

text \<open>
  The hook state of a mounted group: the two \<^verbatim>\<open>useState\<close> cells, what each
  \<^verbatim>\<open>useEffect\<close> saw in its dependency array when it last ran, and the calls of
  \<^verbatim>\<open>onChange\<close> so far. React compares dependencies by identity, so the array in
  \<^verbatim>\<open>values\<close> has an identity \<open>gs_values_ref\<close>: a number that changes whenever a new
  array is stored. The first effect depends on \<^verbatim>\<open>[values, onChange]\<close>: it keeps the
  identity of the array and the identity of the function.
\<close>

record group_state =
  gs_values :: "string list"
  gs_values_ref :: nat
  gs_maxReached :: bool
  gs_onChange_deps :: "(nat \<times> nat) option"
  gs_maxReached_deps :: "(nat \<times> bool) option"
  gs_onChange_calls :: "string list list"

text \<open>
  The props of a group. \<^verbatim>\<open>values\<close> is required by the type, and the body checks it at
  run time, so it is optional here. \<^verbatim>\<open>maxSelections\<close> is a JavaScript number; the
  model takes the integers. \<^verbatim>\<open>onChange\<close> is a function of the caller: the props hold
  its identity \<open>gp_onChange\<close> (which function it is; a caller that writes the handler
  inline passes a new function at every render of its own), and the state records its
  calls. The children are the items written inside the group, by their props.
\<close>

record group_props =
  gp_type :: "toggle_type option"
  gp_values :: "string list option"
  gp_maxSelections :: "int option"
  gp_disabled :: "bool option"
  gp_onChange :: nat
  gp_children :: "group_state item_props list"

text \<open>\<^verbatim>\<open>setValues\<close> with an update function. Both updates of \<^verbatim>\<open>setFieldValue\<close> build
  a new array (\<^verbatim>\<open>filter\<close>, \<^verbatim>\<open>concat\<close>, an array literal), so the identity is always
  fresh and React never skips the render.\<close>

definition setValues :: "(string list \<Rightarrow> string list) \<Rightarrow> group_state \<Rightarrow> group_state" where
  "setValues f st =
     st\<lparr>gs_values := f (gs_values st), gs_values_ref := Suc (gs_values_ref st)\<rparr>"

definition resolved_type :: "group_props \<Rightarrow> toggle_type" where
  "resolved_type p = default_to Checkbox (gp_type p)"

text \<open>Lines 75 to 83: the start of the first render. It throws, or it gives the two
  state cells their first values; no effect has run yet.\<close>

definition Group_init :: "group_props \<Rightarrow> error + group_state" where
  "Group_init p =
     (case gp_values p of
        None \<Rightarrow> Inl (Error ''Don't forget to pass in 'values' to your Toggle.Group'')
      | Some initialValues \<Rightarrow>
          Inr \<lparr>gs_values = (if resolved_type p = Radio then take 1 initialValues
                              else initialValues),
               gs_values_ref = 0,
               gs_maxReached = False,
               gs_onChange_deps = None,
               gs_maxReached_deps = None,
               gs_onChange_calls = []\<rparr>)"

text \<open>Lines 101 to 103: \<^verbatim>\<open>useEffect(() => { onChange(values) }, [values, onChange])\<close>.
  The effect runs after the first render, and after every render in which the array or
  the function is not the one of the render before.\<close>

definition onChange_effect :: "group_props \<Rightarrow> group_state \<Rightarrow> group_state" where
  "onChange_effect p st =
     (let deps = (gs_values_ref st, gp_onChange p)
      in if gs_onChange_deps st = Some deps then st
         else st\<lparr>gs_onChange_calls := gs_onChange_calls st @ [gs_values st],
                 gs_onChange_deps := Some deps\<rparr>)"

text \<open>Lines 105 to 121. \<^verbatim>\<open>maxSelections && ...\<close> is false for \<^verbatim>\<open>undefined\<close> and for
  the number 0. The dependencies that can change are \<^verbatim>\<open>values.length\<close> and
  \<^verbatim>\<open>maxReached\<close>.\<close>

definition maxReached_body :: "group_props \<Rightarrow> group_state \<Rightarrow> group_state" where
  "maxReached_body p st =
     (if resolved_type p = Checkbox then
        (case gp_maxSelections p of
           None \<Rightarrow> st
         | Some maxSelections \<Rightarrow>
             if maxSelections \<noteq> 0 \<and> int (length (gs_values st)) \<ge> maxSelections
                \<and> gs_maxReached st = False
             then st\<lparr>gs_maxReached := True\<rparr>
             else if maxSelections \<noteq> 0 \<and> int (length (gs_values st)) < maxSelections
                \<and> gs_maxReached st = True
             then st\<lparr>gs_maxReached := False\<rparr>
             else st)
      else st)"

definition maxReached_effect :: "group_props \<Rightarrow> group_state \<Rightarrow> group_state" where
  "maxReached_effect p st =
     (let deps = (length (gs_values st), gs_maxReached st)
      in if gs_maxReached_deps st = Some deps then st
         else maxReached_body p (st\<lparr>gs_maxReached_deps := Some deps\<rparr>))"

text \<open>After a render is committed, its effects run in the order of the hooks.\<close>

definition commit :: "group_props \<Rightarrow> group_state \<Rightarrow> group_state" where
  "commit p st = maxReached_effect p (onChange_effect p st)"

text \<open>An effect that changed a state cell makes React render and commit again, until
  nothing changes.\<close>

function rerender :: "group_props \<Rightarrow> group_state \<Rightarrow> group_state" where
  "rerender p st =
     (let st' = commit p st
      in if gs_maxReached st' = gs_maxReached st then st' else rerender p st')"
  by pat_completeness auto
termination
proof (relation "measure (\<lambda>(p, st). if gs_maxReached (commit p st) = gs_maxReached st then 0 else 1)")
  show "wf (measure (\<lambda>(p, st). if gs_maxReached (commit p st) = gs_maxReached st then 0 else 1))"
    by simp
next
  fix p st st'
  assume "st' = commit p st" and "gs_maxReached st' \<noteq> gs_maxReached st"
  then show "((p, st'), (p, st))
      \<in> measure (\<lambda>(p, st). if gs_maxReached (commit p st) = gs_maxReached st then 0 else 1)"
    by (auto simp: commit_def maxReached_effect_def maxReached_body_def onChange_effect_def
          Let_def split: if_splits option.splits)
qed

declare rerender.simps [simp del]

text \<open>Lines 123 to 131: the context the group provides to the items below it.\<close>

definition Group_context :: "group_props \<Rightarrow> group_state \<Rightarrow> group_state group_context" where
  "Group_context p st =
     \<lparr>ctx_values = gs_values st,
      ctx_disabled = default_to False (gp_disabled p),
      ctx_type = resolved_type p,
      ctx_setFieldValue = (\<lambda>fv. setValues (setFieldValue (resolved_type p) fv))\<rparr>"

text \<open>
  Lines 145 to 166: every child is cloned with four props overridden.
  \<^verbatim>\<open>disabled || child.props.disabled\<close> is the child's own prop when the group is not
  disabled, \<^verbatim>\<open>undefined\<close> included.
\<close>

definition clone_child ::
  "group_props \<Rightarrow> group_state \<Rightarrow> group_state item_props \<Rightarrow> group_state item_props" where
  "clone_child p st child =
     (let isSelected = (ip_name child \<in> set (gs_values st));
          isDisabled = (if default_to False (gp_disabled p) then Some True
                        else ip_disabled child);
          isDisabled = (if gs_maxReached st \<and> \<not> isSelected then Some True else isDisabled)
      in child\<lparr>ip_disabled := isDisabled,
               ip_type := Some (if resolved_type p = Radio then Radio else Checkbox),
               ip_value := Some isSelected,
               ip_onChange := Some (ctx_setFieldValue (Group_context p st))\<rparr>)"

definition Group_children :: "group_props \<Rightarrow> group_state \<Rightarrow> group_state item_props list" where
  "Group_children p st = map (clone_child p st) (gp_children p)"

subsection \<open>The life of a group\<close>

text \<open>Mounting: the first render, then its effects, then the renders they cause.\<close>

definition Group_mount :: "group_props \<Rightarrow> error + group_state" where
  "Group_mount p = (case Group_init p of Inl e \<Rightarrow> Inl e | Inr st \<Rightarrow> Inr (rerender p st))"

text \<open>
  An activation of a child item: the press handler of the item as the group rendered
  it runs on the hook state (React applies the updates it queues in order, in one
  batch), then the group renders again and its effects run. Whether the toolkit
  delivers a press to a disabled item is the toolkit's matter; an activation here is a
  press that was delivered.
\<close>

definition press :: "group_props \<Rightarrow> group_state item_props \<Rightarrow> group_state \<Rightarrow> group_state" where
  "press p child st =
     rerender p (onPress (Group_context p st) (clone_child p st child) st)"

fun activations :: "group_props \<Rightarrow> group_state item_props list \<Rightarrow> group_state \<Rightarrow> group_state" where
  "activations p [] st = st"
| "activations p (child # rest) st = activations p rest (press p child st)"

text \<open>A group from its mount through a sequence of activations.\<close>

definition Group_run :: "group_props \<Rightarrow> group_state item_props list \<Rightarrow> error + group_state" where
  "Group_run p cs =
     (case Group_mount p of Inl e \<Rightarrow> Inl e | Inr st \<Rightarrow> Inr (activations p cs st))"

text \<open>
  The caller can also render the group again. The only prop such a render changes here
  is \<^verbatim>\<open>onChange\<close>: the event holds the identity of the function it passes. The group
  renders with the new props and its effects run.
\<close>

datatype group_event = Activate "group_state item_props" | Render nat

fun Group_step :: "group_props \<times> group_state \<Rightarrow> group_event \<Rightarrow> group_props \<times> group_state" where
  "Group_step (p, st) (Activate child) = (p, press p child st)"
| "Group_step (p, st) (Render onChange) =
     (p\<lparr>gp_onChange := onChange\<rparr>, rerender (p\<lparr>gp_onChange := onChange\<rparr>) st)"

text \<open>A group from its mount through a sequence of activations and renders: the props it
  has at the end, and its state.\<close>

definition Group_life :: "group_props \<Rightarrow> group_event list \<Rightarrow> error + group_props \<times> group_state" where
  "Group_life p evs =
     (case Group_mount p of
        Inl e \<Rightarrow> Inl e
      | Inr st \<Rightarrow> Inr (foldl Group_step (p, st) evs))"

text \<open>The children activated in a sequence of events, and the functions passed.\<close>

fun activated :: "group_event list \<Rightarrow> group_state item_props list" where
  "activated [] = []"
| "activated (Activate child # evs) = child # activated evs"
| "activated (Render onChange # evs) = activated evs"

fun renders :: "group_event list \<Rightarrow> nat list" where
  "renders [] = []"
| "renders (Activate child # evs) = renders evs"
| "renders (Render onChange # evs) = onChange # renders evs"

subsection \<open>Facts of the model that the proofs use\<close>

text \<open>The value of \<^verbatim>\<open>maxReached\<close> after the body of its effect ran at a selection of
  \<open>n\<close> names, from the value \<open>b\<close>; and from the first value, \<^verbatim>\<open>false\<close>.\<close>

definition capped :: "group_props \<Rightarrow> nat \<Rightarrow> bool \<Rightarrow> bool" where
  "capped p n b =
     (if resolved_type p = Checkbox then
        (case gp_maxSelections p of
           None \<Rightarrow> b
         | Some m \<Rightarrow> if m \<noteq> 0 then m \<le> int n else b)
      else b)"

definition cap_flag :: "group_props \<Rightarrow> nat \<Rightarrow> bool" where
  "cap_flag p n = capped p n False"

text \<open>Before a render the flag is either untouched (its effect never ran), or it is
  the one that fits the length the effect last saw.\<close>

definition flag_fits :: "group_props \<Rightarrow> group_state \<Rightarrow> bool" where
  "flag_fits p st =
     (case gs_maxReached_deps st of
        None \<Rightarrow> \<not> gs_maxReached st
      | Some (k, b) \<Rightarrow> b = gs_maxReached st \<and> gs_maxReached st = cap_flag p k)"

text \<open>A state in which no effect is pending: both effects have seen the current
  dependencies, and the flag fits the selection.\<close>

definition settled :: "group_props \<Rightarrow> group_state \<Rightarrow> bool" where
  "settled p st =
     (gs_onChange_deps st = Some (gs_values_ref st, gp_onChange p)
      \<and> gs_maxReached_deps st = Some (length (gs_values st), gs_maxReached st)
      \<and> gs_maxReached st = cap_flag p (length (gs_values st)))"

text \<open>The selection after a child named \<open>name\<close> was activated: the child was rendered
  with \<^verbatim>\<open>value = values.includes(name)\<close>, so the setter gets the negation.\<close>

definition toggled :: "group_props \<Rightarrow> string \<Rightarrow> string list \<Rightarrow> string list" where
  "toggled p name s =
     setFieldValue (resolved_type p) \<lparr>fv_name = name, fv_value = name \<notin> set s\<rparr> s"

text \<open>The selections a group goes through when the children named \<open>names\<close> are
  activated in turn, from the selection \<open>s\<close>: the first one included.\<close>

fun selections :: "group_props \<Rightarrow> string list \<Rightarrow> string list \<Rightarrow> string list list" where
  "selections p s [] = [s]"
| "selections p s (name # names) = s # selections p (toggled p name s) names"

text \<open>An item as a caller writes it inside a group, with a name and nothing else; and
  a group around three of them.\<close>

definition named_item :: "string \<Rightarrow> group_state item_props" where
  "named_item name =
     \<lparr>ip_type = None, ip_name = name, ip_value = None, ip_disabled = None,
      ip_onChange = None, ip_hasError = None\<rparr>"

definition abc_group :: "toggle_type \<Rightarrow> string list \<Rightarrow> int option \<Rightarrow> group_props" where
  "abc_group tp vs m =
     \<lparr>gp_type = Some tp, gp_values = Some vs, gp_maxSelections = m, gp_disabled = None,
      gp_onChange = 0,
      gp_children = [named_item ''a'', named_item ''b'', named_item ''c'']\<rparr>"

subsection \<open>Shared styles of the visual variants (lines 280 to 352)\<close>

text \<open>
  The theme comes from \<^verbatim>\<open>#/alf\<close>, which is not part of these sources: it is a
  parameter, with a name and a palette that maps a token (\<^verbatim>\<open>primary_500\<close>) to a
  colour. Every style object the function builds has the same two fields.
\<close>

record theme =
  t_name :: string
  t_palette :: "string \<Rightarrow> string"

record view_style =
  backgroundColor :: string
  borderColor :: string

record style_input =
  si_theme :: theme
  si_selected :: bool
  si_hovered :: bool
  si_focused :: bool
  si_disabled :: bool
  si_hasError :: bool

record toggle_styles =
  baseStyles :: "view_style list"
  baseHoverStyles :: "view_style list"
  indicatorStyles :: "view_style list"

text \<open>The style objects, in the order of the source.\<close>

definition selected_style :: "theme \<Rightarrow> view_style" where
  "selected_style t =
     \<lparr>backgroundColor = (if t_name t = ''light'' then t_palette t ''primary_25''
                          else t_palette t ''primary_900''),
      borderColor = t_palette t ''primary_500''\<rparr>"

definition selected_hover_style :: "theme \<Rightarrow> view_style" where
  "selected_hover_style t =
     \<lparr>backgroundColor = (if t_name t = ''light'' then t_palette t ''primary_100''
                          else t_palette t ''primary_800''),
      borderColor = (if t_name t = ''light'' then t_palette t ''primary_600''
                     else t_palette t ''primary_400'')\<rparr>"

definition hover_style :: "theme \<Rightarrow> view_style" where
  "hover_style t =
     \<lparr>backgroundColor = t_palette t ''contrast_50'',
      borderColor = t_palette t ''contrast_500''\<rparr>"

definition error_style :: "theme \<Rightarrow> view_style" where
  "error_style t =
     \<lparr>backgroundColor = (if t_name t = ''light'' then t_palette t ''negative_25''
                          else t_palette t ''negative_900''),
      borderColor = (if t_name t = ''light'' then t_palette t ''negative_300''
                     else t_palette t ''negative_800'')\<rparr>"

definition error_hover_style :: "theme \<Rightarrow> view_style" where
  "error_hover_style t =
     \<lparr>backgroundColor = (if t_name t = ''light'' then t_palette t ''negative_25''
                          else t_palette t ''negative_900''),
      borderColor = t_palette t ''negative_500''\<rparr>"

definition disabled_style :: "theme \<Rightarrow> view_style" where
  "disabled_style t =
     \<lparr>backgroundColor = t_palette t ''contrast_200'',
      borderColor = t_palette t ''contrast_300''\<rparr>"

text \<open>The three arrays start empty and grow by \<^verbatim>\<open>push\<close>; a pair \<open>(base, baseHover)\<close>
  is threaded through the three \<^verbatim>\<open>if\<close> statements.\<close>

definition createSharedToggleStyles :: "style_input \<Rightarrow> toggle_styles" where
  "createSharedToggleStyles i =
     (let t = si_theme i;
          overlay = (si_hovered i \<or> si_focused i);
          (base, baseHover) = ([], []);
          (base, baseHover) =
            (if si_selected i then
               (base @ [selected_style t],
                if overlay then baseHover @ [selected_hover_style t] else baseHover)
             else
               (base, if overlay then baseHover @ [hover_style t] else baseHover));
          (base, baseHover) =
            (if si_hasError i then
               (base @ [error_style t],
                if overlay then baseHover @ [error_hover_style t] else baseHover)
             else (base, baseHover));
          base = (if si_disabled i then base @ [disabled_style t] else base)
      in \<lparr>baseStyles = base, baseHoverStyles = baseHover, indicatorStyles = []\<rparr>)"

section \<open>Pager: the data model of the page container\<close>

text \<open>
  The source is \<^verbatim>\<open>src/unnamed/part_000\<close>, the \<^verbatim>\<open>Pager\<close> component.
  The pager keeps one state cell, \<^verbatim>\<open>selectedPage\<close>, a JavaScript number (an integer
  here; nothing checks it against the children). Its two optional callbacks are
  functions of a state \<open>'w\<close> of the caller. A pager in use is the pair of the cell and
  the caller's state.
\<close>

datatype tab_bar_position = Top | Bottom

record 'w pager_props =
  pp_tabBarPosition :: "tab_bar_position option"
  pp_initialPage :: "int option"
  pp_onPageSelected :: "(int \<Rightarrow> 'w \<Rightarrow> 'w) option"
  pp_onPageSelecting :: "(int \<Rightarrow> 'w \<Rightarrow> 'w) option"

record 'w pager_state =
  selectedPage :: int
  outside :: 'w

text \<open>Line 29: \<^verbatim>\<open>useState(initialPage)\<close>, with the default \<^verbatim>\<open>initialPage = 0\<close>.\<close>

definition Pager_init :: "'w pager_props \<Rightarrow> 'w \<Rightarrow> 'w pager_state" where
  "Pager_init p w = \<lparr>selectedPage = default_to 0 (pp_initialPage p), outside = w\<rparr>"

definition setSelectedPage :: "int \<Rightarrow> 'w pager_state \<Rightarrow> 'w pager_state" where
  "setSelectedPage index st = st\<lparr>selectedPage := index\<rparr>"

text \<open>Lines 31 to 33, the imperative handle:
  \<^verbatim>\<open>setPage: (index: number) => setSelectedPage(index)\<close>.\<close>

definition setPage :: "int \<Rightarrow> 'w pager_state \<Rightarrow> 'w pager_state" where
  "setPage index st = setSelectedPage index st"

text \<open>Lines 35 to 42:
  \<^verbatim>\<open>setSelectedPage(index); onPageSelected?.(index); onPageSelecting?.(index)\<close>.\<close>

definition onTabBarSelect :: "'w pager_props \<Rightarrow> int \<Rightarrow> 'w pager_state \<Rightarrow> 'w pager_state" where
  "onTabBarSelect p index st =
     (let st = setSelectedPage index st;
          st = st\<lparr>outside := optional_call (pp_onPageSelected p) index (outside st)\<rparr>;
          st = st\<lparr>outside := optional_call (pp_onPageSelecting p) index (outside st)\<rparr>
      in st)"

text \<open>The two ways the selected page changes, and a pager driven by a sequence of them.\<close>

datatype pager_event = is_SetPage: SetPage int | is_TabBarSelect: TabBarSelect int

fun Pager_step :: "'w pager_props \<Rightarrow> 'w pager_state \<Rightarrow> pager_event \<Rightarrow> 'w pager_state" where
  "Pager_step p st (SetPage index) = setPage index st"
| "Pager_step p st (TabBarSelect index) = onTabBarSelect p index st"

definition Pager_run :: "'w pager_props \<Rightarrow> pager_event list \<Rightarrow> 'w pager_state \<Rightarrow> 'w pager_state" where
  "Pager_run p evs st = foldl (Pager_step p) st evs"

text \<open>A caller that records the calls it receives.\<close>

datatype pager_call = Called_onPageSelected int | Called_onPageSelecting int

definition recording_props :: "pager_call list pager_props" where
  "recording_props =
     \<lparr>pp_tabBarPosition = None, pp_initialPage = None,
      pp_onPageSelected = Some (\<lambda>i w. w @ [Called_onPageSelected i]),
      pp_onPageSelecting = Some (\<lambda>i w. w @ [Called_onPageSelecting i])\<rparr>"

text \<open>
  Lines 44 to 64, the render. \<^verbatim>\<open>React.Children.map\<close> wraps the child at position
  \<open>i\<close> (from 0) in a view with the key \<^verbatim>\<open>page-i\<close> and the style \<^verbatim>\<open>s.flex1\<close> when
  \<^verbatim>\<open>selectedPage === i\<close>, \<^verbatim>\<open>{display: 'none'}\<close> otherwise. The tab bar is rendered
  above or below, from the selected page.
\<close>

datatype pane_style = Flex1 | DisplayNone

record 'a pane =
  pane_key :: nat
  pane_style :: pane_style
  pane_child :: 'a

definition Pager_panes :: "int \<Rightarrow> 'a list \<Rightarrow> 'a pane list" where
  "Pager_panes selected children =
     map (\<lambda>(i, child).
            \<lparr>pane_key = i,
             pane_style = (if selected = int i then Flex1 else DisplayNone),
             pane_child = child\<rparr>)
         (enumerate 0 children)"

datatype 'a pager_node = TabBar int | Pane "'a pane"

definition Pager_render :: "'w pager_props \<Rightarrow> 'w pager_state \<Rightarrow> 'a list \<Rightarrow> 'a pager_node list" where
  "Pager_render p st children =
     (let tabBarPosition = default_to Top (pp_tabBarPosition p)
      in (if tabBarPosition = Top then [TabBar (selectedPage st)] else [])
         @ map Pane (Pager_panes (selectedPage st) children)
         @ (if tabBarPosition = Bottom then [TabBar (selectedPage st)] else []))"

section \<open>Properties of the selection update\<close>

text \<open>
  Claim C2. In a checkbox group, the field setter called with \<open>{name, v}\<close> on a selection
  \<open>s\<close> gives \<open>s\<close> without any occurrence of \<open>name\<close>, followed by \<open>name\<close> exactly when \<open>v\<close>
  is true. When \<open>name\<close> already has the value \<open>v\<close> in \<open>s\<close> (it is selected and \<open>v\<close> is
  true, or it is not selected and \<open>v\<close> is false), the set of selected names is the same
  before and after.
\<close>

theorem setFieldValue_checkbox:
  "setFieldValue Checkbox \<lparr>fv_name = name, fv_value = v\<rparr> s =
     removeAll name s @ (if v then [name] else [])
   \<and> ((name \<in> set s) = v \<longrightarrow>
       set (setFieldValue Checkbox \<lparr>fv_name = name, fv_value = v\<rparr> s) = set s)"
proof -
  have keep: "filter (\<lambda>x. x \<noteq> name) s = removeAll name s"
    by (induction s) auto
  show ?thesis
    by (auto simp: setFieldValue_def keep)
qed

theorem setFieldValue_checkbox_witness:
  "setFieldValue Checkbox \<lparr>fv_name = ''b'', fv_value = True\<rparr> [''a'', ''b'', ''c'']
     = [''a'', ''c'', ''b'']
   \<and> set (setFieldValue Checkbox \<lparr>fv_name = ''b'', fv_value = True\<rparr> [''a'', ''b'', ''c''])
     = set [''a'', ''b'', ''c'']
   \<and> setFieldValue Checkbox \<lparr>fv_name = ''d'', fv_value = False\<rparr> [''a'', ''b'', ''c'']
     = [''a'', ''b'', ''c'']"
  using setFieldValue_checkbox [of "''b''" True "[''a'', ''b'', ''c'']"]
    setFieldValue_checkbox [of "''d''" False "[''a'', ''b'', ''c'']"]
  by auto

section \<open>The render cycle of a group\<close>

lemma capped_idem: "capped p n (capped p n b) = capped p n b"
  by (simp add: capped_def split: option.split)

lemma maxReached_body_eq:
  "maxReached_body p st =
     st\<lparr>gs_maxReached := capped p (length (gs_values st)) (gs_maxReached st)\<rparr>"
  by (cases "gs_maxReached st") (simp_all add: maxReached_body_def capped_def split: option.split)

lemma maxReached_effect_eq:
  "maxReached_effect p st =
     (if gs_maxReached_deps st = Some (length (gs_values st), gs_maxReached st) then st
      else st\<lparr>gs_maxReached_deps := Some (length (gs_values st), gs_maxReached st),
              gs_maxReached := capped p (length (gs_values st)) (gs_maxReached st)\<rparr>)"
  by (simp add: maxReached_effect_def maxReached_body_eq)

lemma commit_values [simp]: "gs_values (commit p st) = gs_values st"
  by (simp add: commit_def maxReached_effect_eq onChange_effect_def Let_def)

lemma commit_values_ref [simp]: "gs_values_ref (commit p st) = gs_values_ref st"
  by (simp add: commit_def maxReached_effect_eq onChange_effect_def Let_def)

lemma commit_onChange_deps [simp]:
  "gs_onChange_deps (commit p st) = Some (gs_values_ref st, gp_onChange p)"
  by (simp add: commit_def maxReached_effect_eq onChange_effect_def Let_def)

lemma commit_calls:
  "gs_onChange_calls (commit p st) =
     gs_onChange_calls st @
       (if gs_onChange_deps st = Some (gs_values_ref st, gp_onChange p) then []
        else [gs_values st])"
  by (simp add: commit_def maxReached_effect_eq onChange_effect_def Let_def)

lemma commit_maxReached:
  "gs_maxReached (commit p st) =
     (if gs_maxReached_deps st = Some (length (gs_values st), gs_maxReached st)
      then gs_maxReached st
      else capped p (length (gs_values st)) (gs_maxReached st))"
  by (simp add: commit_def maxReached_effect_eq onChange_effect_def Let_def)

lemma commit_maxReached_deps:
  "gs_maxReached_deps (commit p st) = Some (length (gs_values st), gs_maxReached st)"
  by (simp add: commit_def maxReached_effect_eq onChange_effect_def Let_def)

lemma capped_fix: "capped p n b = c \<Longrightarrow> capped p n c = c"
  using capped_idem [of p n b] by simp

lemma commit_twice:
  "gs_maxReached (commit p st) \<noteq> gs_maxReached st \<Longrightarrow>
   gs_maxReached (commit p (commit p st)) = gs_maxReached (commit p st)"
proof -
  assume changed: "gs_maxReached (commit p st) \<noteq> gs_maxReached st"
  let ?n = "length (gs_values st)"
  from changed have ran: "gs_maxReached (commit p st) = capped p ?n (gs_maxReached st)"
    by (simp add: commit_maxReached split: if_splits)
  have "gs_maxReached (commit p (commit p st))
          = capped p ?n (capped p ?n (gs_maxReached st))"
    using changed ran by (simp add: commit_maxReached [of p "commit p st"] commit_maxReached_deps)
  then show ?thesis
    using ran by (simp add: capped_idem)
qed

lemma rerender_closed:
  "rerender p st =
     (if gs_maxReached (commit p st) = gs_maxReached st then commit p st
      else commit p (commit p st))"
proof (cases "gs_maxReached (commit p st) = gs_maxReached st")
  case True
  then show ?thesis by (subst rerender.simps) (simp add: Let_def)
next
  case False
  from commit_twice [OF this]
  have "rerender p (commit p st) = commit p (commit p st)"
    by (subst rerender.simps) (simp add: Let_def)
  with False show ?thesis
    by (subst rerender.simps) (simp add: Let_def)
qed

lemma rerender_values [simp]: "gs_values (rerender p st) = gs_values st"
  by (simp add: rerender_closed)

lemma rerender_values_ref [simp]: "gs_values_ref (rerender p st) = gs_values_ref st"
  by (simp add: rerender_closed)

lemma rerender_onChange_deps [simp]:
  "gs_onChange_deps (rerender p st) = Some (gs_values_ref st, gp_onChange p)"
  by (simp add: rerender_closed)

lemma rerender_calls:
  "gs_onChange_calls (rerender p st) =
     gs_onChange_calls st @
       (if gs_onChange_deps st = Some (gs_values_ref st, gp_onChange p) then []
        else [gs_values st])"
  by (simp add: rerender_closed commit_calls)

lemma capped_cap_flag: "capped p n (cap_flag p k) = cap_flag p n"
  by (simp add: capped_def cap_flag_def split: option.split)

lemma flag_fits_commit:
  assumes "flag_fits p st"
  shows "gs_maxReached (commit p st) = cap_flag p (length (gs_values st))"
proof -
  from assms consider
      (fresh) "gs_maxReached_deps st = None" "\<not> gs_maxReached st"
    | (ran) k where "gs_maxReached_deps st = Some (k, gs_maxReached st)"
        "gs_maxReached st = cap_flag p k"
    by (auto simp: flag_fits_def split: option.splits)
  then show ?thesis
  proof cases
    case fresh
    then show ?thesis by (simp add: commit_maxReached cap_flag_def)
  next
    case ran
    then show ?thesis by (auto simp: commit_maxReached capped_cap_flag)
  qed
qed

lemma rerender_maxReached:
  assumes "flag_fits p st"
  shows "gs_maxReached (rerender p st) = cap_flag p (length (gs_values st))"
proof -
  note c = flag_fits_commit [OF assms]
  show ?thesis
  proof (cases "gs_maxReached (commit p st) = gs_maxReached st")
    case True
    then show ?thesis using c by (simp add: rerender_closed)
  next
    case False
    from commit_twice [OF this] show ?thesis
      using False c by (simp add: rerender_closed)
  qed
qed

lemma rerender_maxReached_deps:
  assumes "flag_fits p st"
  shows "gs_maxReached_deps (rerender p st)
           = Some (length (gs_values st), cap_flag p (length (gs_values st)))"
proof -
  note c = flag_fits_commit [OF assms]
  show ?thesis
  proof (cases "gs_maxReached (commit p st) = gs_maxReached st")
    case True
    then show ?thesis using c by (simp add: rerender_closed commit_maxReached_deps)
  next
    case False
    then show ?thesis using c
      by (simp add: rerender_closed commit_maxReached_deps commit_maxReached capped_cap_flag)
  qed
qed

lemma rerender_settled: "flag_fits p st \<Longrightarrow> settled p (rerender p st)"
  by (simp add: settled_def rerender_maxReached rerender_maxReached_deps)

lemma settled_flag_fits: "settled p st \<Longrightarrow> flag_fits p st"
  by (auto simp: settled_def flag_fits_def)

lemma setValues_fields [simp]:
  "gs_values (setValues f st) = f (gs_values st)"
  "gs_values_ref (setValues f st) = Suc (gs_values_ref st)"
  "gs_maxReached (setValues f st) = gs_maxReached st"
  "gs_onChange_deps (setValues f st) = gs_onChange_deps st"
  "gs_maxReached_deps (setValues f st) = gs_maxReached_deps st"
  "gs_onChange_calls (setValues f st) = gs_onChange_calls st"
  by (simp_all add: setValues_def)

lemma setFieldValue_twice:
  "setFieldValue tp fv (setFieldValue tp fv s) = setFieldValue tp fv s"
  by (simp add: setFieldValue_def Let_def)

lemma onPress_clone:
  "onPress (Group_context p st) (clone_child p st child) st =
     setValues (setFieldValue (resolved_type p)
                  \<lparr>fv_name = ip_name child, fv_value = ip_name child \<notin> set (gs_values st)\<rparr>)
       (setValues (setFieldValue (resolved_type p)
                  \<lparr>fv_name = ip_name child, fv_value = ip_name child \<notin> set (gs_values st)\<rparr>)
          st)"
  by (simp add: onPress_def optional_call_def clone_child_def Group_context_def default_to_def
        Let_def)

lemma press_values:
  "gs_values (press p child st) = toggled p (ip_name child) (gs_values st)"
  by (simp add: press_def onPress_clone setFieldValue_twice toggled_def)

lemma press_settled:
  assumes "settled p st"
  shows "settled p (press p child st)"
  unfolding press_def onPress_clone
  by (rule rerender_settled) (use assms in \<open>auto simp: flag_fits_def settled_def\<close>)

lemma press_calls:
  assumes "settled p st"
  shows "gs_onChange_calls (press p child st)
           = gs_onChange_calls st @ [gs_values (press p child st)]"
  using assms
  by (simp add: press_def onPress_clone rerender_calls settled_def)

lemma activations_snoc:
  "activations p (cs @ [c]) st = press p c (activations p cs st)"
  by (induction cs arbitrary: st) simp_all

lemma activations_settled: "settled p st \<Longrightarrow> settled p (activations p cs st)"
  by (induction cs arbitrary: st) (simp_all add: press_settled)

lemma Group_init_fits: "Group_init p = Inr st \<Longrightarrow> flag_fits p st"
  by (auto simp: Group_init_def flag_fits_def split: option.splits)

lemma Group_mount_Some:
  assumes "gp_values p = Some vs"
  shows "\<exists>st. Group_mount p = Inr st \<and> settled p st
            \<and> gs_values st = (if resolved_type p = Radio then take 1 vs else vs)
            \<and> gs_onChange_calls st = [gs_values st]"
proof -
  obtain st0 where st0: "Group_init p = Inr st0"
    and v0: "gs_values st0 = (if resolved_type p = Radio then take 1 vs else vs)"
    and c0: "gs_onChange_calls st0 = []" and d0: "gs_onChange_deps st0 = None"
    using assms by (simp add: Group_init_def)
  have "Group_mount p = Inr (rerender p st0)"
    by (simp add: Group_mount_def st0)
  moreover have "settled p (rerender p st0)"
    by (rule rerender_settled) (rule Group_init_fits [OF st0])
  ultimately show ?thesis
    using v0 c0 d0 by (simp add: rerender_calls)
qed

lemma selections_split: "selections p s names = s # tl (selections p s names)"
  by (cases names) simp_all

lemma activations_calls:
  "settled p st \<Longrightarrow>
   gs_onChange_calls (activations p cs st)
     = gs_onChange_calls st @ tl (selections p (gs_values st) (map ip_name cs))"
proof (induction cs arbitrary: st)
  case Nil
  then show ?case by simp
next
  case (Cons c cs)
  let ?s = "toggled p (ip_name c) (gs_values st)"
  from Cons.prems have "settled p (press p c st)"
    by (rule press_settled)
  from Cons.IH [OF this]
  have "gs_onChange_calls (activations p (c # cs) st)
          = gs_onChange_calls st @ ?s # tl (selections p ?s (map ip_name cs))"
    using Cons.prems by (simp add: press_calls press_values)
  also have "?s # tl (selections p ?s (map ip_name cs)) = selections p ?s (map ip_name cs)"
    by (rule selections_split [symmetric])
  finally show ?case by simp
qed

lemma activations_values:
  "gs_values (activations p cs st) = last (selections p (gs_values st) (map ip_name cs))"
proof (induction cs arbitrary: st)
  case Nil
  then show ?case by simp
next
  case (Cons c cs)
  have "selections p (toggled p (ip_name c) (gs_values st)) (map ip_name cs) \<noteq> []"
    by (subst selections_split) simp
  with Cons.IH [of "press p c st"] show ?case
    by (simp add: press_values)
qed

lemma Group_run_Some:
  assumes "gp_values p = Some vs"
  shows "\<exists>st0 st. Group_mount p = Inr st0 \<and> settled p st0
            \<and> gs_values st0 = (if resolved_type p = Radio then take 1 vs else vs)
            \<and> gs_onChange_calls st0 = [gs_values st0]
            \<and> Group_run p cs = Inr st \<and> st = activations p cs st0 \<and> settled p st"
  using Group_mount_Some [OF assms]
  by (auto simp: Group_run_def activations_settled)

lemma toggled_Radio: "resolved_type p = Radio \<Longrightarrow> toggled p name s = [name]"
  by (simp add: toggled_def setFieldValue_def)

text \<open>
  Claim C1. In a radio group the selection never holds more than one name: it starts as
  the first of the initial values (or empty), every activation of a child replaces it,
  and after a sequence of activations that is not empty it is exactly the name of the
  child activated last.
\<close>

theorem radio_selection:
  assumes "gp_type p = Some Radio" and "gp_values p = Some vs"
  shows "\<exists>st. Group_run p cs = Inr st
           \<and> length (gs_values st) \<le> 1
           \<and> gs_values st = (if cs = [] then take 1 vs else [ip_name (last cs)])"
proof -
  have radio: "resolved_type p = Radio"
    using assms(1) by (simp add: resolved_type_def default_to_def)
  from Group_run_Some [OF assms(2), of cs] obtain st0 st
    where st0: "gs_values st0 = take 1 vs" and run: "Group_run p cs = Inr st"
      and st: "st = activations p cs st0"
    using radio by auto
  have "gs_values st = (if cs = [] then take 1 vs else [ip_name (last cs)])"
    unfolding st using st0
    by (induction cs rule: rev_induct)
       (simp_all add: activations_snoc press_values toggled_Radio [OF radio])
  with run show ?thesis by auto
qed

theorem radio_selection_witness:
  "\<exists>st. Group_run (abc_group Radio [''a'', ''b''] None) [named_item ''c'', named_item ''b'']
          = Inr st
        \<and> length (gs_values st) \<le> 1 \<and> gs_values st = [''b'']"
  using radio_selection [of "abc_group Radio [''a'', ''b''] None" "[''a'', ''b'']"
      "[named_item ''c'', named_item ''b'']"]
  by (simp add: abc_group_def named_item_def)

section \<open>The cap on the selections of a checkbox group\<close>

lemma abc_run:
  "\<exists>st. Group_run (abc_group tp vs m) cs = Inr st
        \<and> gs_values st = last (selections (abc_group tp vs m) (if tp = Radio then take 1 vs else vs) (map ip_name cs))"
  using Group_run_Some [of "abc_group tp vs m" vs cs]
  by (auto simp: abc_group_def resolved_type_def default_to_def activations_values)

lemma cap_flag_Checkbox:
  "resolved_type p = Checkbox \<Longrightarrow> gp_maxSelections p = Some m \<Longrightarrow>
   cap_flag p n = (m \<noteq> 0 \<and> m \<le> int n)"
  by (simp add: cap_flag_def capped_def)

lemma clone_child_disabled:
  "ip_disabled (clone_child p st child) =
     (if gs_maxReached st \<and> ip_name child \<notin> set (gs_values st) then Some True
      else if default_to False (gp_disabled p) then Some True
      else ip_disabled child)"
  by (simp add: clone_child_def Let_def)

text \<open>
  Claim C3. In a checkbox group with \<open>maxSelections = m\<close>, in every state the group
  comes to rest in (after the mount and after each activation, once the effects have
  run): the max-reached flag is set exactly when \<open>m\<close> is not 0 and the selection holds at
  least \<open>m\<close> names. While it is set, every child that is not selected is handed
  \<open>disabled = true\<close>, and a selected child is handed what it would get without the cap:
  \<open>true\<close> when the group is disabled, its own \<open>disabled\<close> prop otherwise, so the cap
  never keeps it from being deselected. When the selection is below \<open>m\<close> again the flag
  is clear and every child is handed what it would get without the cap. The second list
  is the \<open>disabled\<close> each item resolves for itself.
\<close>

theorem max_selections_cap:
  assumes "resolved_type p = Checkbox" and "gp_maxSelections p = Some m"
    and "gp_values p = Some vs"
  shows "\<exists>st. Group_run p cs = Inr st
           \<and> gs_maxReached st = (m \<noteq> 0 \<and> m \<le> int (length (gs_values st)))
           \<and> map ip_disabled (Group_children p st) =
               map (\<lambda>child.
                      if m \<noteq> 0 \<and> m \<le> int (length (gs_values st))
                         \<and> ip_name child \<notin> set (gs_values st)
                      then Some True
                      else if default_to False (gp_disabled p) then Some True
                      else ip_disabled child)
                   (gp_children p)
           \<and> map (\<lambda>item. is_disabled (Item_state (Group_context p st) item hovered pressed focused))
                 (Group_children p st) =
               map (\<lambda>child.
                      (m \<noteq> 0 \<and> m \<le> int (length (gs_values st))
                         \<and> ip_name child \<notin> set (gs_values st))
                      \<or> default_to False (gp_disabled p)
                      \<or> default_to False (ip_disabled child))
                   (gp_children p)"
proof -
  from Group_run_Some [OF assms(3), of cs] obtain st
    where run: "Group_run p cs = Inr st" and st: "settled p st"
    by auto
  from st have flag: "gs_maxReached st = (m \<noteq> 0 \<and> m \<le> int (length (gs_values st)))"
    by (simp add: settled_def cap_flag_Checkbox [OF assms(1,2)])
  have "map ip_disabled (Group_children p st) =
          map (\<lambda>child.
                 if m \<noteq> 0 \<and> m \<le> int (length (gs_values st))
                    \<and> ip_name child \<notin> set (gs_values st)
                 then Some True
                 else if default_to False (gp_disabled p) then Some True
                 else ip_disabled child)
              (gp_children p)"
    by (simp add: Group_children_def clone_child_disabled flag)
  moreover
  have "map (\<lambda>item. is_disabled (Item_state (Group_context p st) item hovered pressed focused))
          (Group_children p st) =
        map (\<lambda>child.
               (m \<noteq> 0 \<and> m \<le> int (length (gs_values st))
                  \<and> ip_name child \<notin> set (gs_values st))
               \<or> default_to False (gp_disabled p)
               \<or> default_to False (ip_disabled child))
            (gp_children p)"
    by (auto simp: Group_children_def clone_child_disabled flag Item_state_def
          Group_context_def Let_def default_to_def)
  ultimately show ?thesis
    using run flag by blast
qed

text \<open>The group of three with \<open>a\<close> selected and a cap of 2: activating \<open>b\<close> reaches the
  cap and disables \<open>c\<close> alone; activating \<open>a\<close> after that takes the cap away again.\<close>

theorem max_selections_cap_witness:
  "(\<exists>st. Group_run (abc_group Checkbox [''a''] (Some 2)) [named_item ''b''] = Inr st
        \<and> gs_values st = [''a'', ''b''] \<and> gs_maxReached st
        \<and> map ip_disabled (Group_children (abc_group Checkbox [''a''] (Some 2)) st)
            = [None, None, Some True])
   \<and> (\<exists>st. Group_run (abc_group Checkbox [''a''] (Some 2)) [named_item ''b'', named_item ''a'']
          = Inr st
        \<and> gs_values st = [''b''] \<and> \<not> gs_maxReached st
        \<and> map ip_disabled (Group_children (abc_group Checkbox [''a''] (Some 2)) st)
            = [None, None, None])"
proof -
  let ?p = "abc_group Checkbox [''a''] (Some 2)"
  have p: "resolved_type ?p = Checkbox" "gp_maxSelections ?p = Some 2"
    "gp_values ?p = Some [''a'']"
    by (simp_all add: abc_group_def resolved_type_def default_to_def)
  have sel: "resolved_type (abc_group Checkbox vs m) = Checkbox" for vs m
    by (simp add: abc_group_def resolved_type_def default_to_def)
  from abc_run [of Checkbox "[''a'']" "Some 2" "[named_item ''b'']"]
  obtain st1 where st1: "Group_run ?p [named_item ''b''] = Inr st1"
    and v1: "gs_values st1 = [''a'', ''b'']"
    by (auto simp: named_item_def toggled_def setFieldValue_def sel)
  from abc_run [of Checkbox "[''a'']" "Some 2" "[named_item ''b'', named_item ''a'']"]
  obtain st2 where st2: "Group_run ?p [named_item ''b'', named_item ''a''] = Inr st2"
    and v2: "gs_values st2 = [''b'']"
    by (auto simp: named_item_def toggled_def setFieldValue_def sel)
  from max_selections_cap [OF p, of "[named_item ''b'']"] st1 v1
  have "gs_maxReached st1 \<and> map ip_disabled (Group_children ?p st1) = [None, None, Some True]"
    by (simp add: abc_group_def named_item_def default_to_def)
  moreover
  from max_selections_cap [OF p, of "[named_item ''b'', named_item ''a'']"] st2 v2
  have "\<not> gs_maxReached st2 \<and> map ip_disabled (Group_children ?p st2) = [None, None, None]"
    by (simp add: abc_group_def named_item_def default_to_def)
  ultimately show ?thesis
    using st1 v1 st2 v2 by simp
qed

text \<open>
  With \<open>maxSelections = 0\<close> the test \<^verbatim>\<open>maxSelections && ...\<close> is false: the selection
  has 0 names, which is at least the cap, and no child is disabled. And with a cap of 2,
  the render that follows the activation of a second child comes before the effect: it
  sees two names selected and the flag still clear, and hands \<open>c\<close> no \<open>disabled\<close>.
\<close>

theorem max_selections_zero_counterexample:
  "(\<exists>st. Group_run (abc_group Checkbox [] (Some 0)) [] = Inr st
        \<and> (0::int) \<le> int (length (gs_values st))
        \<and> ''a'' \<notin> set (gs_values st)
        \<and> \<not> gs_maxReached st
        \<and> map ip_disabled (Group_children (abc_group Checkbox [] (Some 0)) st)
            = [None, None, None])
   \<and> (\<exists>st0 st1. Group_mount (abc_group Checkbox [''a''] (Some 2)) = Inr st0
        \<and> st1 = onPress (Group_context (abc_group Checkbox [''a''] (Some 2)) st0)
                   (clone_child (abc_group Checkbox [''a''] (Some 2)) st0 (named_item ''b'')) st0
        \<and> gs_values st1 = [''a'', ''b'']
        \<and> (2::int) \<le> int (length (gs_values st1))
        \<and> ''c'' \<notin> set (gs_values st1)
        \<and> map ip_disabled (Group_children (abc_group Checkbox [''a''] (Some 2)) st1)
            = [None, None, None])"
proof -
  let ?z = "abc_group Checkbox [] (Some 0)"
  from Group_run_Some [of ?z "[]" "[]"] obtain st
    where run: "Group_run ?z [] = Inr st" and st: "settled ?z st" and v: "gs_values st = []"
    by (auto simp: abc_group_def resolved_type_def default_to_def)
  from st v have "\<not> gs_maxReached st"
    by (simp add: settled_def cap_flag_def capped_def abc_group_def)
  with run v have zero: "\<exists>st. Group_run ?z [] = Inr st
        \<and> (0::int) \<le> int (length (gs_values st))
        \<and> ''a'' \<notin> set (gs_values st)
        \<and> \<not> gs_maxReached st
        \<and> map ip_disabled (Group_children ?z st) = [None, None, None]"
    by (simp add: Group_children_def clone_child_disabled abc_group_def named_item_def
          default_to_def)
  let ?p = "abc_group Checkbox [''a''] (Some 2)"
  let ?press = "\<lambda>st0. onPress (Group_context ?p st0) (clone_child ?p st0 (named_item ''b'')) st0"
  have tp: "resolved_type ?p = Checkbox"
    by (simp add: abc_group_def resolved_type_def default_to_def)
  from Group_mount_Some [of ?p "[''a'']"] obtain st0
    where mount: "Group_mount ?p = Inr st0" and s0: "settled ?p st0"
      and v0: "gs_values st0 = [''a'']"
    by (auto simp: abc_group_def tp)
  from s0 v0 have f0: "\<not> gs_maxReached st0"
    by (simp add: settled_def cap_flag_def capped_def abc_group_def tp)
  have v1: "gs_values (?press st0) = [''a'', ''b'']"
    by (simp add: onPress_clone v0 tp named_item_def setFieldValue_def)
  have f1: "\<not> gs_maxReached (?press st0)"
    by (simp add: onPress_clone f0)
  have "map ip_disabled (Group_children ?p (?press st0)) = [None, None, None]"
    using f1 by (simp add: Group_children_def clone_child_disabled abc_group_def
          named_item_def default_to_def)
  with mount v1 have early: "\<exists>st0 st1. Group_mount ?p = Inr st0
        \<and> st1 = ?press st0
        \<and> gs_values st1 = [''a'', ''b'']
        \<and> (2::int) \<le> int (length (gs_values st1))
        \<and> ''c'' \<notin> set (gs_values st1)
        \<and> map ip_disabled (Group_children ?p st1) = [None, None, None]"
    by simp
  from zero early show ?thesis
    by blast
qed

section \<open>The calls of \<^verbatim>\<open>onChange\<close>\<close>

lemma activated_snoc [simp]:
  "activated (evs @ [Activate child]) = activated evs @ [child]"
  "activated (evs @ [Render f]) = activated evs"
  by (induction evs rule: activated.induct) simp_all

lemma renders_snoc [simp]:
  "renders (evs @ [Activate child]) = renders evs"
  "renders (evs @ [Render f]) = renders evs @ [f]"
  by (induction evs rule: renders.induct) simp_all

lemma cap_flag_onChange [simp]: "cap_flag (p\<lparr>gp_onChange := f\<rparr>) n = cap_flag p n"
  by (simp add: cap_flag_def capped_def resolved_type_def)

lemma toggled_onChange [simp]: "toggled (p\<lparr>gp_onChange := f\<rparr>) name s = toggled p name s"
  by (simp add: toggled_def resolved_type_def)

lemma selections_onChange [simp]:
  "selections (p\<lparr>gp_onChange := f\<rparr>) s names = selections p s names"
  by (induction names arbitrary: s) simp_all

lemma selections_snoc:
  "selections p s (names @ [name]) =
     selections p s names @ [toggled p name (last (selections p s names))]"
proof (induction names arbitrary: s)
  case Nil
  then show ?case by simp
next
  case (Cons n names)
  have "selections p (toggled p n s) names \<noteq> []"
    by (subst selections_split) simp
  with Cons show ?case by simp
qed

lemma selections_length: "length (selections p s names) = Suc (length names)"
  by (induction names arbitrary: s) simp_all

text \<open>A render with another function, from a state at rest.\<close>

lemma render_settled:
  assumes "settled p st"
  shows "settled (p\<lparr>gp_onChange := f\<rparr>) (rerender (p\<lparr>gp_onChange := f\<rparr>) st)"
  by (rule rerender_settled) (use assms in \<open>simp add: flag_fits_def settled_def\<close>)

lemma render_calls:
  assumes "settled p st"
  shows "gs_onChange_calls (rerender (p\<lparr>gp_onChange := f\<rparr>) st) =
           gs_onChange_calls st @ (if f = gp_onChange p then [] else [gs_values st])"
  using assms by (auto simp: rerender_calls settled_def)

text \<open>What holds of a group after any sequence of events, from a state at rest.\<close>

lemma life_invariant:
  assumes "settled p st0"
  shows "\<exists>st. foldl Group_step (p, st0) evs
                = (p\<lparr>gp_onChange := last (gp_onChange p # renders evs)\<rparr>, st)
           \<and> settled (p\<lparr>gp_onChange := last (gp_onChange p # renders evs)\<rparr>) st
           \<and> gs_values st = last (selections p (gs_values st0) (map ip_name (activated evs)))
           \<and> (gs_onChange_calls st0 \<noteq> [] \<and> last (gs_onChange_calls st0) = gs_values st0 \<longrightarrow>
                gs_onChange_calls st \<noteq> [] \<and> last (gs_onChange_calls st) = gs_values st)
           \<and> ((\<forall>f \<in> set (renders evs). f = gp_onChange p) \<longrightarrow>
                gs_onChange_calls st =
                  gs_onChange_calls st0
                    @ tl (selections p (gs_values st0) (map ip_name (activated evs))))"
proof (induction evs rule: rev_induct)
  case Nil
  with assms show ?case by simp
next
  case (snoc ev evs)
  let ?q = "p\<lparr>gp_onChange := last (gp_onChange p # renders evs)\<rparr>"
  let ?names = "map ip_name (activated evs)"
  from snoc obtain st where run: "foldl Group_step (p, st0) evs = (?q, st)"
    and rest: "settled ?q st"
    and vals: "gs_values st = last (selections p (gs_values st0) ?names)"
    and lst: "gs_onChange_calls st0 \<noteq> [] \<and> last (gs_onChange_calls st0) = gs_values st0 \<longrightarrow>
                gs_onChange_calls st \<noteq> [] \<and> last (gs_onChange_calls st) = gs_values st"
    and calls: "(\<forall>f \<in> set (renders evs). f = gp_onChange p) \<longrightarrow>
                gs_onChange_calls st =
                  gs_onChange_calls st0 @ tl (selections p (gs_values st0) ?names)"
    by blast
  have ne: "selections p (gs_values st0) ?names \<noteq> []"
    by (subst selections_split) simp
  show ?case
  proof (cases ev)
    case (Activate child)
    have "settled ?q (press ?q child st)"
      using rest by (rule press_settled)
    moreover have "gs_values (press ?q child st) =
        last (selections p (gs_values st0) (?names @ [ip_name child]))"
      by (simp add: press_values vals selections_snoc)
    moreover have "gs_onChange_calls (press ?q child st) =
        gs_onChange_calls st @ [toggled p (ip_name child) (gs_values st)]"
      using press_calls [OF rest, of child] by (simp add: press_values)
    ultimately show ?thesis
      using run calls ne Activate
      by (simp add: selections_snoc vals press_values)
  next
    case (Render f)
    have "settled (?q\<lparr>gp_onChange := f\<rparr>) (rerender (?q\<lparr>gp_onChange := f\<rparr>) st)"
      using rest by (rule render_settled)
    moreover have "gs_onChange_calls (rerender (?q\<lparr>gp_onChange := f\<rparr>) st) =
        gs_onChange_calls st @ (if f = gp_onChange ?q then [] else [gs_values st])"
      using rest by (rule render_calls)
    moreover have "(\<forall>g \<in> set (renders evs). g = gp_onChange p) \<longrightarrow>
        gp_onChange ?q = gp_onChange p"
      by (cases "renders evs = []") (auto dest: last_in_set)
    moreover have "gs_values (rerender (?q\<lparr>gp_onChange := f\<rparr>) st) = gs_values st"
      by simp
    ultimately show ?thesis
      using run calls vals lst Render
      by auto
  qed
qed

lemma Group_life_Some:
  assumes "gp_values p = Some vs"
  shows "\<exists>st0 st.
           Group_mount p = Inr st0
           \<and> gs_onChange_calls st0 = [if resolved_type p = Radio then take 1 vs else vs]
           \<and> Group_life p evs = Inr (p\<lparr>gp_onChange := last (gp_onChange p # renders evs)\<rparr>, st)
           \<and> settled (p\<lparr>gp_onChange := last (gp_onChange p # renders evs)\<rparr>) st
           \<and> last (gs_onChange_calls st) = gs_values st
           \<and> ((\<forall>g \<in> set (renders evs). g = gp_onChange p) \<longrightarrow>
                gs_onChange_calls st =
                  selections p (if resolved_type p = Radio then take 1 vs else vs)
                    (map ip_name (activated evs)))"
proof -
  let ?init = "if resolved_type p = Radio then take 1 vs else vs"
  from Group_mount_Some [OF assms] obtain st0
    where mount: "Group_mount p = Inr st0" and s0: "settled p st0"
      and v0: "gs_values st0 = ?init" and c0: "gs_onChange_calls st0 = [gs_values st0]"
    by blast
  from life_invariant [OF s0, of evs] obtain st
    where run: "foldl Group_step (p, st0) evs
                  = (p\<lparr>gp_onChange := last (gp_onChange p # renders evs)\<rparr>, st)"
      and rest: "settled (p\<lparr>gp_onChange := last (gp_onChange p # renders evs)\<rparr>) st"
      and lst: "last (gs_onChange_calls st) = gs_values st"
      and calls: "(\<forall>g \<in> set (renders evs). g = gp_onChange p) \<longrightarrow>
                gs_onChange_calls st =
                  gs_onChange_calls st0
                    @ tl (selections p (gs_values st0) (map ip_name (activated evs)))"
    using c0 by auto
  have "[?init] @ tl (selections p ?init names) = selections p ?init names" for names
    using selections_split [of p ?init names] by simp
  with calls have "(\<forall>g \<in> set (renders evs). g = gp_onChange p) \<longrightarrow>
      gs_onChange_calls st = selections p ?init (map ip_name (activated evs))"
    by (simp add: c0 v0)
  with mount run rest lst c0 v0 show ?thesis
    by (simp add: Group_life_def)
qed

text \<open>With activations only, the life of a group is its run under the props of the
  mount.\<close>

lemma Group_life_activations:
  "Group_life p (map Activate cs) =
     (case Group_run p cs of Inl e \<Rightarrow> Inl e | Inr st \<Rightarrow> Inr (p, st))"
proof -
  have "foldl Group_step (p, st) (map Activate cs) = (p, activations p cs st)" for st
    by (induction cs arbitrary: st) simp_all
  then show ?thesis
    by (simp add: Group_life_def Group_run_def split: sum.splits)
qed

lemma Group_life_snoc:
  "Group_life p evs = Inr (q, st) \<Longrightarrow>
   Group_life p (evs @ [ev]) = Inr (Group_step (q, st) ev)"
  by (auto simp: Group_life_def split: sum.splits)


text \<open>
  Claim C4. A group calls \<^verbatim>\<open>onChange\<close> exactly once when it mounts, with the selection it
  starts from: the initial values in a checkbox group, at most the first of them in a
  radio group. After that, every activation of a child is followed by exactly one call,
  with the whole selection, in order, as it is after that activation. A render in which
  the caller passes another function as \<^verbatim>\<open>onChange\<close> is followed by one call too, with
  the selection as it is; a render that passes the same function is followed by none.
  So the last call always carries the current selection, and as long as every render
  passes the function of the mount, the calls are the selections the group went
  through, one more than there were activations.
\<close>

theorem onChange_calls:
  assumes "gp_values p = Some vs"
  shows "\<exists>st0 q st st' st''.
           Group_mount p = Inr st0
           \<and> gs_onChange_calls st0 = [if resolved_type p = Radio then take 1 vs else vs]
           \<and> Group_life p evs = Inr (q, st)
           \<and> q = p\<lparr>gp_onChange := last (gp_onChange p # renders evs)\<rparr>
           \<and> last (gs_onChange_calls st) = gs_values st
           \<and> Group_life p (evs @ [Activate child]) = Inr (q, st')
           \<and> gs_onChange_calls st' = gs_onChange_calls st @ [gs_values st']
           \<and> Group_life p (evs @ [Render f]) = Inr (q\<lparr>gp_onChange := f\<rparr>, st'')
           \<and> gs_values st'' = gs_values st
           \<and> gs_onChange_calls st'' =
               gs_onChange_calls st @ (if f = gp_onChange q then [] else [gs_values st])
           \<and> ((\<forall>g \<in> set (renders evs). g = gp_onChange p) \<longrightarrow>
                gs_onChange_calls st =
                  selections p (if resolved_type p = Radio then take 1 vs else vs)
                    (map ip_name (activated evs))
                \<and> length (gs_onChange_calls st) = Suc (length (activated evs)))"
proof -
  let ?q = "p\<lparr>gp_onChange := last (gp_onChange p # renders evs)\<rparr>"
  from Group_life_Some [OF assms, of evs] obtain st0 st
    where mount: "Group_mount p = Inr st0"
      and c0: "gs_onChange_calls st0 = [if resolved_type p = Radio then take 1 vs else vs]"
      and run: "Group_life p evs = Inr (?q, st)"
      and rest: "settled ?q st"
      and lst: "last (gs_onChange_calls st) = gs_values st"
      and calls: "(\<forall>g \<in> set (renders evs). g = gp_onChange p) \<longrightarrow>
                gs_onChange_calls st =
                  selections p (if resolved_type p = Radio then take 1 vs else vs)
                    (map ip_name (activated evs))"
    by blast
  have act: "Group_life p (evs @ [Activate child]) = Inr (?q, press ?q child st)"
    using Group_life_snoc [OF run, of "Activate child"] by simp
  have ren: "Group_life p (evs @ [Render f])
               = Inr (?q\<lparr>gp_onChange := f\<rparr>, rerender (?q\<lparr>gp_onChange := f\<rparr>) st)"
    using Group_life_snoc [OF run, of "Render f"] by simp
  have same: "gs_values (rerender (?q\<lparr>gp_onChange := f\<rparr>) st) = gs_values st"
    by simp
  have stable: "(\<forall>g \<in> set (renders evs). g = gp_onChange p) \<longrightarrow>
      gs_onChange_calls st =
        selections p (if resolved_type p = Radio then take 1 vs else vs)
          (map ip_name (activated evs))
      \<and> length (gs_onChange_calls st) = Suc (length (activated evs))"
  proof
    assume "\<forall>g \<in> set (renders evs). g = gp_onChange p"
    with calls have "gs_onChange_calls st =
        selections p (if resolved_type p = Radio then take 1 vs else vs)
          (map ip_name (activated evs))"
      by (rule mp)
    then show "gs_onChange_calls st =
        selections p (if resolved_type p = Radio then take 1 vs else vs)
          (map ip_name (activated evs))
      \<and> length (gs_onChange_calls st) = Suc (length (activated evs))"
      by (simp only: selections_length length_map simp_thms)
  qed
  show ?thesis
    apply (intro exI conjI)
              apply (rule mount)
             apply (rule c0)
            apply (rule run)
           apply (rule refl)
          apply (rule lst)
         apply (rule act)
        apply (rule press_calls [OF rest])
       apply (rule ren)
      apply (rule same)
     apply (rule render_calls [OF rest])
    apply (rule stable)
    done
qed


text \<open>With the values \<open>a, b\<close> in a checkbox group the first call gets \<open>[a, b]\<close>; a render
  with the same function adds no call, and the call after \<open>a\<close> was deactivated gets
  \<open>[b]\<close>.\<close>

theorem onChange_calls_witness:
  "\<exists>st0 q st. Group_mount (abc_group Checkbox [''a'', ''b''] None) = Inr st0
        \<and> gs_onChange_calls st0 = [[''a'', ''b'']]
        \<and> Group_life (abc_group Checkbox [''a'', ''b''] None)
              [Render 0, Activate (named_item ''a'')] = Inr (q, st)
        \<and> gs_onChange_calls st = [[''a'', ''b''], [''b'']]"
  using onChange_calls [of "abc_group Checkbox [''a'', ''b''] None" "[''a'', ''b'']"
      "[Render 0, Activate (named_item ''a'')]" "named_item ''a''" 0]
  by (auto simp: abc_group_def named_item_def resolved_type_def default_to_def toggled_def
        setFieldValue_def)


text \<open>A radio group mounted with the values \<open>a, b\<close> calls \<^verbatim>\<open>onChange\<close> with \<open>[a]\<close>, not
  with the initial values. And when the caller passes a new function after \<open>a\<close> was
  deactivated, that one change of the selection is followed by two calls.\<close>

theorem onChange_radio_counterexample:
  "(\<exists>st0. Group_mount (abc_group Radio [''a'', ''b''] None) = Inr st0
        \<and> gs_onChange_calls st0 = [[''a'']]
        \<and> gs_onChange_calls st0 \<noteq> [[''a'', ''b'']])
   \<and> (\<exists>q st. Group_life (abc_group Checkbox [''a'', ''b''] None)
                 [Activate (named_item ''a''), Render 1] = Inr (q, st)
        \<and> gs_onChange_calls st = [[''a'', ''b''], [''b''], [''b'']])"
proof -
  have radio: "\<exists>st0. Group_mount (abc_group Radio [''a'', ''b''] None) = Inr st0
        \<and> gs_onChange_calls st0 = [[''a'']]
        \<and> gs_onChange_calls st0 \<noteq> [[''a'', ''b'']]"
    using Group_mount_Some [of "abc_group Radio [''a'', ''b''] None" "[''a'', ''b'']"]
    by (auto simp: abc_group_def resolved_type_def default_to_def)
  let ?p = "abc_group Checkbox [''a'', ''b''] None"
  let ?evs = "[Activate (named_item ''a'')]"
  let ?q = "?p\<lparr>gp_onChange := last (gp_onChange ?p # renders ?evs)\<rparr>"
  from Group_life_Some [of ?p "[''a'', ''b'']" ?evs] obtain st
    where run: "Group_life ?p ?evs = Inr (?q, st)" and rest: "settled ?q st"
      and lst: "last (gs_onChange_calls st) = gs_values st"
      and calls: "gs_onChange_calls st = [[''a'', ''b''], [''b'']]"
    by (auto simp: abc_group_def named_item_def resolved_type_def default_to_def toggled_def
          setFieldValue_def)
  from Group_life_snoc [OF run, of "Render 1"]
  have "Group_life ?p [Activate (named_item ''a''), Render 1]
          = Inr (?q\<lparr>gp_onChange := 1\<rparr>, rerender (?q\<lparr>gp_onChange := 1\<rparr>) st)"
    by simp
  moreover have "gs_onChange_calls (rerender (?q\<lparr>gp_onChange := 1\<rparr>) st)
      = [[''a'', ''b''], [''b''], [''b'']]"
    using render_calls [OF rest, of 1] lst calls by (simp add: abc_group_def)
  ultimately have "\<exists>q st. Group_life ?p [Activate (named_item ''a''), Render 1] = Inr (q, st)
        \<and> gs_onChange_calls st = [[''a'', ''b''], [''b''], [''b'']]"
    by blast
  with radio show ?thesis
    by blast
qed


section \<open>A group without values\<close>

text \<open>
  Claim C5. A group without \<^verbatim>\<open>values\<close> throws at the start of its first render, before
  any state exists, any effect runs or any child is rendered, and so does everything
  that starts with the mount. That error is the only one: with \<^verbatim>\<open>values\<close> given, the
  empty list included, the first render, the mount and every run return a state. The
  handlers of the items and of the pager, and the style function, return no error at
  all.
\<close>

theorem Group_values_required:
  "(Group_init p = Inl e) =
     (gp_values p = None \<and> e = Error ''Don't forget to pass in 'values' to your Toggle.Group'')
   \<and> (Group_mount p = Inl e) = (Group_init p = Inl e)
   \<and> (Group_run p cs = Inl e) = (Group_init p = Inl e)
   \<and> (\<exists>st. Group_init p = Inr st) = (\<exists>vs. gp_values p = Some vs)
   \<and> (\<exists>st. Group_run p cs = Inr st) = (\<exists>vs. gp_values p = Some vs)
   \<and> (\<exists>st. Group_init (p\<lparr>gp_values := Some []\<rparr>) = Inr st \<and> gs_values st = [])"
  by (cases "gp_values p")
     (auto simp: Group_init_def Group_mount_def Group_run_def split: option.splits sum.splits)

section \<open>The handlers of the pager\<close>

lemma onTabBarSelect_eq:
  "onTabBarSelect p i st =
     \<lparr>selectedPage = i,
      outside = optional_call (pp_onPageSelecting p) i
                  (optional_call (pp_onPageSelected p) i (outside st))\<rparr>"
  by (simp add: onTabBarSelect_def setSelectedPage_def Let_def)

lemma setPage_eq: "setPage i st = \<lparr>selectedPage = i, outside = outside st\<rparr>"
  by (simp add: setPage_def setSelectedPage_def)

lemma Pager_run_snoc: "Pager_run p (evs @ [ev]) st = Pager_step p (Pager_run p evs st) ev"
  by (simp add: Pager_run_def)

text \<open>What a recording caller has seen after any sequence of events.\<close>

lemma Pager_run_recording:
  "outside (Pager_run recording_props evs st) =
     outside st @
       concat (map (\<lambda>ev. case ev of
                          SetPage i \<Rightarrow> []
                        | TabBarSelect i \<Rightarrow> [Called_onPageSelected i, Called_onPageSelecting i])
                   evs)"
proof (induction evs rule: rev_induct)
  case Nil
  then show ?case by (simp add: Pager_run_def)
next
  case (snoc ev evs)
  then show ?case
    by (cases ev)
       (simp_all add: Pager_run_snoc setPage_eq onTabBarSelect_eq optional_call_def
          recording_props_def)
qed

lemma Pager_run_selectedPage:
  "selectedPage (Pager_run p evs st) =
     last (selectedPage st # map (\<lambda>ev. case ev of SetPage i \<Rightarrow> i | TabBarSelect i \<Rightarrow> i) evs)"
proof (induction evs rule: rev_induct)
  case Nil
  then show ?case by (simp add: Pager_run_def)
next
  case (snoc ev evs)
  then show ?case
    by (cases ev) (simp_all add: Pager_run_snoc setPage_eq onTabBarSelect_eq)
qed

text \<open>
  Claim C6. A tab-bar selection of the index \<open>i\<close> sets the selected page to \<open>i\<close>, then
  calls \<^verbatim>\<open>onPageSelected\<close> with \<open>i\<close>, then \<^verbatim>\<open>onPageSelecting\<close> with \<open>i\<close>, each once, also
  when \<open>i\<close> is the page already selected. This holds for every props: each callback
  is an optional prop, and one that was not supplied is skipped, whatever the other is.
  Over any sequence of selections a recording caller sees exactly that pair of calls
  per selection, in the order of the selections.
\<close>

theorem onTabBarSelect_calls:
  "onTabBarSelect p i st
     = \<lparr>selectedPage = i,
        outside = optional_call (pp_onPageSelecting p) i
                    (optional_call (pp_onPageSelected p) i (outside st))\<rparr>
   \<and> onTabBarSelect (p\<lparr>pp_onPageSelected := Some f, pp_onPageSelecting := Some g\<rparr>) i st
     = \<lparr>selectedPage = i, outside = g i (f i (outside st))\<rparr>
   \<and> onTabBarSelect (p\<lparr>pp_onPageSelected := Some f, pp_onPageSelecting := None\<rparr>) i st
     = \<lparr>selectedPage = i, outside = f i (outside st)\<rparr>
   \<and> onTabBarSelect (p\<lparr>pp_onPageSelected := None, pp_onPageSelecting := Some g\<rparr>) i st
     = \<lparr>selectedPage = i, outside = g i (outside st)\<rparr>
   \<and> onTabBarSelect (p\<lparr>pp_onPageSelected := None, pp_onPageSelecting := None\<rparr>) i st
     = \<lparr>selectedPage = i, outside = outside st\<rparr>
   \<and> onTabBarSelect recording_props i \<lparr>selectedPage = i, outside = w\<rparr>
     = \<lparr>selectedPage = i, outside = w @ [Called_onPageSelected i, Called_onPageSelecting i]\<rparr>
   \<and> Pager_run recording_props (map TabBarSelect indices) st
     = \<lparr>selectedPage = last (selectedPage st # indices),
        outside = outside st @
          concat (map (\<lambda>i. [Called_onPageSelected i, Called_onPageSelecting i]) indices)\<rparr>"
proof -
  have "outside (Pager_run recording_props (map TabBarSelect indices) st)
          = outside st @
              concat (map (\<lambda>i. [Called_onPageSelected i, Called_onPageSelecting i]) indices)"
    by (simp add: Pager_run_recording comp_def)
  moreover
  have "selectedPage (Pager_run recording_props (map TabBarSelect indices) st)
          = last (selectedPage st # indices)"
    by (simp add: Pager_run_selectedPage comp_def)
  ultimately show ?thesis
    by (simp add: onTabBarSelect_eq optional_call_def recording_props_def)
qed


text \<open>
  Claim C10. \<^verbatim>\<open>setPage\<close> changes the selected page and nothing else: the caller's state
  is as it was, whatever the callbacks are. In any sequence of \<^verbatim>\<open>setPage\<close> calls and
  tab-bar selections, what the callbacks did is what they do on the tab-bar selections
  alone.
\<close>

theorem setPage_calls_nothing:
  "setPage i st = \<lparr>selectedPage = i, outside = outside st\<rparr>
   \<and> Pager_step p st (SetPage i) = \<lparr>selectedPage = i, outside = outside st\<rparr>
   \<and> outside (Pager_run p (map SetPage indices) st) = outside st
   \<and> outside (Pager_run p evs st) = outside (Pager_run p (filter is_TabBarSelect evs) st)
   \<and> outside (Pager_run recording_props evs st) =
       outside st @
         concat (map (\<lambda>ev. case ev of
                            SetPage i \<Rightarrow> []
                          | TabBarSelect i \<Rightarrow> [Called_onPageSelected i, Called_onPageSelecting i])
                     evs)"
proof -
  have quiet: "outside (Pager_run p (map SetPage indices) st) = outside st"
    by (induction indices rule: rev_induct) (simp_all add: Pager_run_def setPage_eq)
  have only_tabs:
    "outside (Pager_run p evs st) = outside (Pager_run p (filter is_TabBarSelect evs) st)"
  proof (induction evs rule: rev_induct)
    case Nil
    then show ?case by simp
  next
    case (snoc ev evs)
    then show ?case
      by (cases ev) (simp_all add: Pager_run_snoc setPage_eq onTabBarSelect_eq)
  qed
  from quiet only_tabs Pager_run_recording [of evs st] show ?thesis
    by (simp add: setPage_eq)
qed

section \<open>The panes of the pager\<close>

lemma Pager_panes_length [simp]: "length (Pager_panes selected children) = length children"
  by (simp add: Pager_panes_def)

lemma Pager_panes_nth:
  "j < length children \<Longrightarrow>
   Pager_panes selected children ! j =
     \<lparr>pane_key = j,
      pane_style = (if selected = int j then Flex1 else DisplayNone),
      pane_child = children ! j\<rparr>"
  by (simp add: Pager_panes_def nth_enumerate_eq)

text \<open>
  Claim C7. After \<^verbatim>\<open>setPage\<close> with an index \<open>i\<close> inside the children, the render has one
  pane per child, the pane at \<open>i\<close> has the visible style and every other pane is hidden.
  Whatever page is selected, every child is rendered, in order, under the same key.
\<close>

theorem setPage_shows_one_pane:
  assumes "i < length children"
  shows "length (Pager_panes (selectedPage (setPage (int i) st)) children) = length children
         \<and> (\<forall>j < length children.
               Pager_panes (selectedPage (setPage (int i) st)) children ! j =
                 \<lparr>pane_key = j,
                  pane_style = (if j = i then Flex1 else DisplayNone),
                  pane_child = children ! j\<rparr>)
         \<and> filter (\<lambda>pane. pane_style pane = Flex1)
               (Pager_panes (selectedPage (setPage (int i) st)) children)
             = [\<lparr>pane_key = i, pane_style = Flex1, pane_child = children ! i\<rparr>]
         \<and> map pane_child (Pager_panes selected children) = children
         \<and> map pane_key (Pager_panes selected children) = [0..<length children]"
proof -
  let ?panes = "Pager_panes (selectedPage (setPage (int i) st)) children"
  have sel: "selectedPage (setPage (int i) st) = int i"
    by (simp add: setPage_eq)
  have nth: "\<forall>j < length children.
      ?panes ! j = \<lparr>pane_key = j, pane_style = (if j = i then Flex1 else DisplayNone),
                   pane_child = children ! j\<rparr>"
    by (auto simp: sel Pager_panes_nth)
  have split: "?panes = take i ?panes @ ?panes ! i # drop (Suc i) ?panes"
    using assms by (simp add: id_take_nth_drop)
  have before: "filter (\<lambda>pane. pane_style pane = Flex1) (take i ?panes) = []"
    using assms nth by (auto simp: filter_empty_conv in_set_conv_nth)
  have after: "filter (\<lambda>pane. pane_style pane = Flex1) (drop (Suc i) ?panes) = []"
    using assms nth by (auto simp: filter_empty_conv in_set_conv_nth)
  have at: "?panes ! i = \<lparr>pane_key = i, pane_style = Flex1, pane_child = children ! i\<rparr>"
    using assms nth by simp
  have one: "filter (\<lambda>pane. pane_style pane = Flex1) ?panes
      = [\<lparr>pane_key = i, pane_style = Flex1, pane_child = children ! i\<rparr>]"
    by (subst split) (simp add: before after at)
  have children: "map pane_child (Pager_panes selected children) = children"
    by (rule nth_equalityI) (simp_all add: Pager_panes_nth)
  have keys: "map pane_key (Pager_panes selected children) = [0..<length children]"
    by (rule nth_equalityI) (simp_all add: Pager_panes_nth)
  from nth one children keys show ?thesis
    by simp
qed

theorem setPage_shows_one_pane_witness:
  "Pager_panes (selectedPage (setPage (int 1) \<lparr>selectedPage = 0, outside = ()\<rparr>))
       [''x'', ''y'', ''z'']
     = [\<lparr>pane_key = 0, pane_style = DisplayNone, pane_child = ''x''\<rparr>,
        \<lparr>pane_key = 1, pane_style = Flex1, pane_child = ''y''\<rparr>,
        \<lparr>pane_key = 2, pane_style = DisplayNone, pane_child = ''z''\<rparr>]
   \<and> filter (\<lambda>pane. pane_style pane = Flex1)
         (Pager_panes (selectedPage (setPage (int 1) \<lparr>selectedPage = 0, outside = ()\<rparr>))
            [''x'', ''y'', ''z''])
     = [\<lparr>pane_key = 1, pane_style = Flex1, pane_child = ''y''\<rparr>]"
  using setPage_shows_one_pane [of 1 "[''x'', ''y'', ''z'']" "\<lparr>selectedPage = 0, outside = ()\<rparr>"]
  by (simp add: Pager_panes_def setPage_eq enumerate_eq_zip upt_rec)

section \<open>The press handler of an item\<close>

text \<open>
  Claim C8. A press computes the negation of \<^verbatim>\<open>value\<close>, calls the setter of the context
  with the name and the negation, then the item's own \<^verbatim>\<open>onChange\<close> (when it has one)
  with the same pair. Outside a group the setter is the default of the context, which
  does nothing, so only \<^verbatim>\<open>onChange\<close> acts. Nothing guards against a second press: it
  makes the same two calls again.
\<close>

theorem onPress_calls:
  "onPress ctx props w =
     optional_call (ip_onChange props)
       \<lparr>fv_name = ip_name props, fv_value = \<not> default_to False (ip_value props)\<rparr>
       (ctx_setFieldValue ctx
          \<lparr>fv_name = ip_name props, fv_value = \<not> default_to False (ip_value props)\<rparr> w)
   \<and> onPress GroupContext_default props w =
       optional_call (ip_onChange props)
         \<lparr>fv_name = ip_name props, fv_value = \<not> default_to False (ip_value props)\<rparr> w
   \<and> onPress GroupContext_default (props\<lparr>ip_onChange := None\<rparr>) w = w
   \<and> onPress recording_context
         \<lparr>ip_type = tp, ip_name = name, ip_value = Some value, ip_disabled = disabled,
          ip_onChange = Some recording_onChange, ip_hasError = hasError\<rparr> calls
       = calls @ [Called_setFieldValue \<lparr>fv_name = name, fv_value = \<not> value\<rparr>,
                  Called_onChange \<lparr>fv_name = name, fv_value = \<not> value\<rparr>]
   \<and> onPress GroupContext_default
         \<lparr>ip_type = tp, ip_name = name, ip_value = Some value, ip_disabled = disabled,
          ip_onChange = Some recording_onChange, ip_hasError = hasError\<rparr> calls
       = calls @ [Called_onChange \<lparr>fv_name = name, fv_value = \<not> value\<rparr>]
   \<and> onPress recording_context
         \<lparr>ip_type = tp, ip_name = name, ip_value = Some value, ip_disabled = disabled,
          ip_onChange = Some recording_onChange, ip_hasError = hasError\<rparr>
         (onPress recording_context
            \<lparr>ip_type = tp, ip_name = name, ip_value = Some value, ip_disabled = disabled,
             ip_onChange = Some recording_onChange, ip_hasError = hasError\<rparr> calls)
       = calls @ [Called_setFieldValue \<lparr>fv_name = name, fv_value = \<not> value\<rparr>,
                  Called_onChange \<lparr>fv_name = name, fv_value = \<not> value\<rparr>,
                  Called_setFieldValue \<lparr>fv_name = name, fv_value = \<not> value\<rparr>,
                  Called_onChange \<lparr>fv_name = name, fv_value = \<not> value\<rparr>]"
  by (simp add: onPress_def optional_call_def GroupContext_default_def recording_context_def
        recording_onChange_def default_to_def Let_def)

section \<open>The shared styles\<close>

text \<open>
  Claim C9. The shared styles are a function of the input record alone. For an input
  that is selected, has an error and is disabled, the base styles are the selected
  layer, the error layer and the disabled layer, in that order; whenever the input is
  disabled the disabled layer is the last of the base styles. The hover styles are
  not empty exactly when the input is hovered or focused.
\<close>

theorem createSharedToggleStyles_layers:
  "baseStyles (createSharedToggleStyles
      \<lparr>si_theme = t, si_selected = True, si_hovered = hovered, si_focused = focused,
       si_disabled = True, si_hasError = True\<rparr>)
     = [selected_style t, error_style t, disabled_style t]
   \<and> last (baseStyles (createSharedToggleStyles (i\<lparr>si_disabled := True\<rparr>)))
     = disabled_style (si_theme i)
   \<and> (baseHoverStyles (createSharedToggleStyles i) \<noteq> []) = (si_hovered i \<or> si_focused i)
   \<and> baseHoverStyles (createSharedToggleStyles i) =
       (if si_hovered i \<or> si_focused i
        then (if si_selected i then [selected_hover_style (si_theme i)]
              else [hover_style (si_theme i)])
             @ (if si_hasError i then [error_hover_style (si_theme i)] else [])
        else [])
   \<and> indicatorStyles (createSharedToggleStyles i) = []"
  by (simp add: createSharedToggleStyles_def Let_def)

end
